theory Spec2Isabelle
  imports Complex_Main "HOL-Library.Multiset"
begin

section \<open>Strings\<close>

text \<open>
  JavaScript strings are sequences of code units. They are modelled as \<^typ>\<open>string\<close>, one
  \<^typ>\<open>char\<close> per code unit, and the model is that of ASCII text: case conversion and
  white space are those of the code units below 128.
\<close>

text \<open>The white space that \<^verbatim>\<open>String.prototype.trim\<close> removes: TAB, LF, VT, FF, CR and the space.\<close>

definition isWhiteSpace :: "char \<Rightarrow> bool" where
  "isWhiteSpace c = (c \<in> {CHR 0x09, CHR 0x0A, CHR 0x0B, CHR 0x0C, CHR 0x0D, CHR 0x20})"

definition trim :: "string \<Rightarrow> string" where
  "trim s = rev (dropWhile isWhiteSpace (rev (dropWhile isWhiteSpace s)))"

text \<open>
  \<^verbatim>\<open>s.split(d)\<close> for a separator \<open>d\<close> of one character: the fragments between the
  separators, the empty ones included; the empty string splits into one empty fragment.
\<close>

fun split :: "char \<Rightarrow> string \<Rightarrow> string list" where
  "split d [] = [[]]"
| "split d (c # cs) =
     (if c = d then [] # split d cs
      else (case split d cs of
              [] \<Rightarrow> [[c]]
            | f # fs \<Rightarrow> (c # f) # fs))"

text \<open>\<^verbatim>\<open>xs.join(sep)\<close>.\<close>

fun join :: "string \<Rightarrow> string list \<Rightarrow> string" where
  "join sep [] = []"
| "join sep [x] = x"
| "join sep (x # y # ys) = x @ sep @ join sep (y # ys)"

text \<open>
  A JavaScript number that comes out of a division of two lengths: the quotient, or
  \<^verbatim>\<open>Infinity\<close> or \<^verbatim>\<open>NaN\<close> when the divisor is zero (the division never throws). The
  quotient is kept exact, as a rational; the double is the value nearest to it.
\<close>

datatype jsnumber = Finite rat | Infinity | NaN

definition jsDivide :: "nat \<Rightarrow> nat \<Rightarrow> jsnumber" where
  "jsDivide a b =
     (if b = 0 then (if a = 0 then NaN else Infinity)
      else Finite (of_nat a / of_nat b))"

section \<open>The summarizer: \<^verbatim>\<open>mockSummarizeText\<close>\<close>

text \<open>
  \<^verbatim>\<open>
  mockSummarizeText(text) {
      const sentences = text.split('.').filter(s => s.trim().length > 0);
      const summaryLength = Math.min(3, sentences.length);
      const summary = sentences.slice(0, summaryLength).join('. ') + '.';
      return {
          summary: summary,
          original_length: text.split(' ').length,
          summary_length: summary.split(' ').length,
          compression_ratio: summary.length / text.length,
          sentences_used: summaryLength,
          total_sentences: sentences.length
      };
  }
  \<close>
  The function has one parameter: no ratio reaches it.
\<close>

record summaryResult =
  summary :: string
  original_length :: nat
  summary_length :: nat
  compression_ratio :: jsnumber
  sentences_used :: nat
  total_sentences :: nat

definition sentences :: "string \<Rightarrow> string list" where
  "sentences txt = filter (\<lambda>s. length (trim s) > 0) (split CHR ''.'' txt)"

definition summaryLength :: "string \<Rightarrow> nat" where
  "summaryLength txt = min 3 (length (sentences txt))"

text \<open>The selection, \<^verbatim>\<open>sentences.slice(0, summaryLength)\<close>.\<close>

definition selectedSentences :: "string \<Rightarrow> string list" where
  "selectedSentences txt = take (summaryLength txt) (sentences txt)"

definition mockSummarizeText :: "string \<Rightarrow> summaryResult" where
  "mockSummarizeText txt =
     (let summ = join ''. '' (selectedSentences txt) @ ''.''
      in \<lparr> summary = summ,
           original_length = length (split CHR '' '' txt),
           summary_length = length (split CHR '' '' summ),
           compression_ratio = jsDivide (length summ) (length txt),
           sentences_used = summaryLength txt,
           total_sentences = length (sentences txt) \<rparr>)"

text \<open>
  The segmentation and the word count in the words of the specification, to compare with
  the code: fragments are trimmed and the empty ones dropped; a word is a maximal run of
  characters that are not white space.
\<close>

definition specSentences :: "string \<Rightarrow> string list" where
  "specSentences txt = filter (\<lambda>s. s \<noteq> []) (map trim (split CHR ''.'' txt))"

fun wordCountFrom :: "bool \<Rightarrow> string \<Rightarrow> nat" where
  "wordCountFrom inWord [] = 0"
| "wordCountFrom inWord (c # cs) =
     (if isWhiteSpace c then wordCountFrom False cs
      else (if inWord then 0 else 1) + wordCountFrom True cs)"

definition specWordCount :: "string \<Rightarrow> nat" where
  "specWordCount s = wordCountFrom False s"


section \<open>The annotation of entities: \<^verbatim>\<open>highlightEntities\<close>\<close>

text \<open>
  \<^verbatim>\<open>
  function highlightEntities(text, entities) {
      let highlightedText = text;
      // Sort entities by last occurrence position (reverse order for safe replacement)
      entities.sort((a, b) => text.lastIndexOf(b.text) - text.lastIndexOf(a.text));
      entities.forEach(entity => {
          const regex = new RegExp(`\\b${entity.text.replace(/[.*+?^${}()|[\]\\]/g, '\\$&')}\\b`, 'gi');
          highlightedText = highlightedText.replace(regex,
              `<span class="entity-highlight entity-${entity.label.toLowerCase()}" title="${entity.description}">${entity.text}</span>`
          );
      });
      return highlightedText;
  }
  \<close>
  An entity is an object with the fields \<^verbatim>\<open>text\<close>, \<^verbatim>\<open>label\<close> and \<^verbatim>\<open>description\<close>;
  the first is \<open>entityText\<close> here.
\<close>

record entity =
  entityText :: string
  label :: string
  description :: string

subsection \<open>Characters\<close>

definition backslash :: char where
  "backslash = CHR 0x5C"

definition doubleQuote :: char where
  "doubleQuote = CHR 0x22"

definition lowerLetters :: string where
  "lowerLetters = ''abcdefghijklmnopqrstuvwxyz''"

definition upperLetters :: string where
  "upperLetters = ''ABCDEFGHIJKLMNOPQRSTUVWXYZ''"

text \<open>\<^verbatim>\<open>toLowerCase\<close> and \<^verbatim>\<open>toUpperCase\<close> of one character.\<close>

definition toLowerChar :: "char \<Rightarrow> char" where
  "toLowerChar c = (case map_of (zip upperLetters lowerLetters) c of Some l \<Rightarrow> l | None \<Rightarrow> c)"

definition toUpperChar :: "char \<Rightarrow> char" where
  "toUpperChar c = (case map_of (zip lowerLetters upperLetters) c of Some u \<Rightarrow> u | None \<Rightarrow> c)"

definition toLowerCase :: "string \<Rightarrow> string" where
  "toLowerCase s = map toLowerChar s"

text \<open>
  Under the flag \<^verbatim>\<open>i\<close> two characters match when their canonical forms, the upper-case
  characters, are equal. A word character, for \<^verbatim>\<open>\b\<close>, is a letter, a digit or the
  underscore.
\<close>

definition canonicalize :: "char \<Rightarrow> char" where
  "canonicalize c = toUpperChar c"

definition isWordChar :: "char \<Rightarrow> bool" where
  "isWordChar c = (c \<in> set (lowerLetters @ upperLetters @ ''0123456789_''))"

subsection \<open>The pattern\<close>

text \<open>
  The inner \<^verbatim>\<open>replace(/[.*+?^${}()|[\]\\]/g, '\\$&')\<close> puts a backslash before every
  character of the class.
\<close>

definition escapedClass :: "char list" where
  "escapedClass = ''.*+?^${}()|[]'' @ [backslash]"

definition escapeRegExp :: "string \<Rightarrow> string" where
  "escapeRegExp s = concat (map (\<lambda>c. if c \<in> set escapedClass then [backslash, c] else [c]) s)"

text \<open>The source of the pattern, the template literal \<^verbatim>\<open>`\\b${...}\\b`\<close>.\<close>

definition patternSource :: "entity \<Rightarrow> string" where
  "patternSource e =
     [backslash, CHR ''b''] @ escapeRegExp (entityText e) @ [backslash, CHR ''b'']"

text \<open>
  The patterns of the regular-expression language that the model reads: a sequence of
  characters that stand for themselves, of syntax characters after a backslash, and of
  the assertion \<^verbatim>\<open>\b\<close>. The syntax characters of the language are
  \<^verbatim>\<open>^ $ \ . * + ? ( ) [ ] { } |\<close>; one of them without a backslash is an operator,
  and a backslash before any other character is a class or a control escape: such a
  pattern is outside the model, and \<open>compile\<close> returns \<open>None\<close> for it.
\<close>

datatype atom = WordBoundary | Lit char

definition syntaxCharacters :: "char list" where
  "syntaxCharacters = ''^$'' @ [backslash] @ ''.*+?()[]{}|''"

fun compile :: "string \<Rightarrow> atom list option" where
  "compile [] = Some []"
| "compile [c] =
     (if c \<in> set syntaxCharacters then None else Some [Lit c])"
| "compile (c # d # r) =
     (if c = backslash then
        (if d = CHR ''b'' then map_option (Cons WordBoundary) (compile r)
         else if d \<in> set syntaxCharacters then map_option (Cons (Lit d)) (compile r)
         else None)
      else if c \<in> set syntaxCharacters then None
      else map_option (Cons (Lit c)) (compile (d # r)))"

text \<open>
  What \<open>compile\<close> makes of the pattern of an entity: the characters of its text, each
  standing for itself, between two assertions.
\<close>

definition entityAtoms :: "entity \<Rightarrow> atom list" where
  "entityAtoms e = WordBoundary # map Lit (entityText e) @ [WordBoundary]"

subsection \<open>Matching\<close>

text \<open>
  \<^verbatim>\<open>\b\<close> holds at index \<open>i\<close> when exactly one of the characters at \<open>i - 1\<close> and
  \<open>i\<close> is a word character; there is no word character beyond either end of the string.
\<close>

definition isWordCharAt :: "string \<Rightarrow> int \<Rightarrow> bool" where
  "isWordCharAt s i = (0 \<le> i \<and> i < int (length s) \<and> isWordChar (s ! nat i))"

definition isWordBoundary :: "string \<Rightarrow> nat \<Rightarrow> bool" where
  "isWordBoundary s i = (isWordCharAt s (int i - 1) \<noteq> isWordCharAt s (int i))"

text \<open>The atoms are matched one after the other from index \<open>i\<close>; the result is the end index.\<close>

fun matchAtoms :: "atom list \<Rightarrow> string \<Rightarrow> nat \<Rightarrow> nat option" where
  "matchAtoms [] s i = Some i"
| "matchAtoms (WordBoundary # as) s i =
     (if isWordBoundary s i then matchAtoms as s i else None)"
| "matchAtoms (Lit c # as) s i =
     (if i < length s \<and> canonicalize (s ! i) = canonicalize c
      then matchAtoms as s (Suc i) else None)"

lemma matchAtoms_bounds:
  "matchAtoms as s i = Some e \<Longrightarrow> i \<le> e \<and> (i \<le> length s \<longrightarrow> e \<le> length s)"
proof (induction as s i rule: matchAtoms.induct)
  case (1 s i)
  then show ?case by simp
next
  case (2 as s i)
  then show ?case by (simp split: if_splits)
next
  case (3 c as s i)
  then show ?case by (fastforce split: if_splits)
qed

text \<open>
  The matches of a global pattern, as \<^verbatim>\<open>String.prototype.replace\<close> collects them: the
  search starts at \<open>lastIndex = i\<close> and tries each index up to the length of the string;
  after a match \<open>(i, e)\<close> it goes on from \<open>e\<close>, and from \<open>e + 1\<close> when the match is empty.
\<close>

function matchAll :: "atom list \<Rightarrow> string \<Rightarrow> nat \<Rightarrow> (nat \<times> nat) list" where
  "matchAll as s i =
     (if i > length s then []
      else (case matchAtoms as s i of
              None \<Rightarrow> matchAll as s (Suc i)
            | Some e \<Rightarrow> (i, e) # matchAll as s (if e = i then Suc e else e)))"
  by pat_completeness auto
termination
proof (relation "measure (\<lambda>(as, s, i). Suc (length s) - i)")
  show "wf (measure (\<lambda>(as, s, i). Suc (length s) - i))" by simp
next
  fix as :: "atom list" and s :: string and i :: nat
  assume "\<not> length s < i"
  then show "((as, s, Suc i), (as, s, i)) \<in> measure (\<lambda>(as, s, i). Suc (length s) - i)"
    by simp
next
  fix as :: "atom list" and s :: string and i e :: nat
  assume a: "\<not> length s < i" and m: "matchAtoms as s i = Some e"
  from matchAtoms_bounds [OF m] have "i \<le> e" by simp
  with a show "((as, s, if e = i then Suc e else e), (as, s, i))
      \<in> measure (\<lambda>(as, s, i). Suc (length s) - i)"
    by auto
qed

declare matchAll.simps [simp del]

subsection \<open>Replacement\<close>

text \<open>
  The replacement text of one match (\<^verbatim>\<open>GetSubstitution\<close>): in the template \<^verbatim>\<open>$$\<close> is
  a dollar sign, \<^verbatim>\<open>$&\<close> the matched text, \<^verbatim>\<open>$`\<close> the string before the match and
  \<^verbatim>\<open>$'\<close> the string after it. The pattern has no capture group, so that a dollar sign
  before anything else stands for itself.
\<close>

fun getSubstitution :: "string \<Rightarrow> string \<Rightarrow> nat \<Rightarrow> string \<Rightarrow> string" where
  "getSubstitution matched str position [] = []"
| "getSubstitution matched str position [c] = [c]"
| "getSubstitution matched str position (c # d # r) =
     (if c = CHR ''$'' then
        (if d = CHR ''$'' then CHR ''$'' # getSubstitution matched str position r
         else if d = CHR ''&'' then matched @ getSubstitution matched str position r
         else if d = CHR 0x60 then take position str @ getSubstitution matched str position r
         else if d = CHR 0x27 then
           drop (position + length matched) str @ getSubstitution matched str position r
         else c # getSubstitution matched str position (d # r))
      else c # getSubstitution matched str position (d # r))"

text \<open>A template that holds none of the four patterns.\<close>

fun literalTemplate :: "string \<Rightarrow> bool" where
  "literalTemplate [] = True"
| "literalTemplate [c] = True"
| "literalTemplate (c # d # r) =
     (\<not> (c = CHR ''$'' \<and> d \<in> {CHR ''$'', CHR ''&'', CHR 0x60, CHR 0x27})
      \<and> literalTemplate (d # r))"

text \<open>
  The result of \<^verbatim>\<open>replace\<close>: the string between the matches is copied, each match is
  replaced; \<open>nextSourcePosition\<close> is the end of the last match that was replaced.
\<close>

definition substring :: "string \<Rightarrow> nat \<Rightarrow> nat \<Rightarrow> string" where
  "substring str a b = take (b - a) (drop a str)"

fun accumulateResult :: "string \<Rightarrow> string \<Rightarrow> (nat \<times> nat) list \<Rightarrow> nat \<Rightarrow> string" where
  "accumulateResult str template [] nextSourcePosition =
     substring str nextSourcePosition (length str)"
| "accumulateResult str template ((position, e) # results) nextSourcePosition =
     (if position \<ge> nextSourcePosition then
        substring str nextSourcePosition position
        @ getSubstitution (substring str position e) str position template
        @ accumulateResult str template results e
      else accumulateResult str template results nextSourcePosition)"

definition replace :: "string \<Rightarrow> atom list \<Rightarrow> string \<Rightarrow> string" where
  "replace str regex template = accumulateResult str template (matchAll regex str 0) 0"

text \<open>The replacement template of an entity.\<close>

definition openTag :: "entity \<Rightarrow> string" where
  "openTag e =
     ''<span class='' @ [doubleQuote] @ ''entity-highlight entity-'' @ toLowerCase (label e)
     @ [doubleQuote] @ '' title='' @ [doubleQuote] @ description e @ [doubleQuote] @ ''>''"

definition replacement :: "entity \<Rightarrow> string" where
  "replacement e = openTag e @ entityText e @ ''</span>''"

subsection \<open>The function\<close>

text \<open>
  \<^verbatim>\<open>text.lastIndexOf(t)\<close>: the greatest index at which \<open>t\<close> occurs in the text, exactly
  as it is written, or \<open>-1\<close>.
\<close>

definition occursAt :: "string \<Rightarrow> string \<Rightarrow> nat \<Rightarrow> bool" where
  "occursAt s t i = (i + length t \<le> length s \<and> take (length t) (drop i s) = t)"

fun lastIndexFrom :: "string \<Rightarrow> string \<Rightarrow> nat \<Rightarrow> int" where
  "lastIndexFrom s t 0 = (if occursAt s t 0 then 0 else -1)"
| "lastIndexFrom s t (Suc k) = (if occursAt s t (Suc k) then int (Suc k) else lastIndexFrom s t k)"

definition lastIndexOf :: "string \<Rightarrow> string \<Rightarrow> int" where
  "lastIndexOf s t = lastIndexFrom s t (length s)"

text \<open>
  \<^verbatim>\<open>Array.prototype.sort\<close> sorts the array in place and is stable (the language
  requires it since its edition of 2019); the comparison
  \<^verbatim>\<open>text.lastIndexOf(b.text) - text.lastIndexOf(a.text)\<close> puts the greater index first.
  The model is the stable insertion sort on the negated index.
\<close>

definition sortKey :: "string \<Rightarrow> entity \<Rightarrow> int" where
  "sortKey txt e = - lastIndexOf txt (entityText e)"

definition sortEntities :: "string \<Rightarrow> entity list \<Rightarrow> entity list" where
  "sortEntities txt entities = sort_key (sortKey txt) entities"

datatype error = SyntaxError

text \<open>
  One call of the function passed to \<^verbatim>\<open>forEach\<close>. \<^verbatim>\<open>new RegExp\<close> throws a
  \<^verbatim>\<open>SyntaxError\<close> on a pattern that it cannot read; the model takes this branch for
  every pattern that \<open>compile\<close> does not read.
\<close>

definition highlightEntity :: "entity \<Rightarrow> string \<Rightarrow> error + string" where
  "highlightEntity e highlightedText =
     (case compile (patternSource e) of
        None \<Rightarrow> Inl SyntaxError
      | Some regex \<Rightarrow> Inr (replace highlightedText regex (replacement e)))"

fun forEachEntity :: "entity list \<Rightarrow> string \<Rightarrow> error + string" where
  "forEachEntity [] highlightedText = Inr highlightedText"
| "forEachEntity (e # es) highlightedText =
     (case highlightEntity e highlightedText of
        Inl err \<Rightarrow> Inl err
      | Inr t \<Rightarrow> forEachEntity es t)"

text \<open>
  The result is the returned string (or the error thrown) and the array \<open>entities\<close> as
  the call leaves it.
\<close>

definition highlightEntities :: "string \<Rightarrow> entity list \<Rightarrow> (error + string) \<times> entity list" where
  "highlightEntities txt entities =
     (let sorted = sortEntities txt entities
      in (forEachEntity sorted txt, sorted))"

section \<open>The counts of the chart: \<^verbatim>\<open>createEntityChart\<close>\<close>

text \<open>
  \<^verbatim>\<open>
  const entityCounts = {};
  entities.forEach(entity => {
      entityCounts[entity.label] = (entityCounts[entity.label] || 0) + 1;
  });
  \<close>
  The object is a map from labels to counts. A label that names a property which every
  object inherits (\<open>inheritedNames\<close>) is not read as absent by the code, and is outside
  the model.
\<close>

definition countEntity :: "(string \<rightharpoonup> nat) \<Rightarrow> entity \<Rightarrow> (string \<rightharpoonup> nat)" where
  "countEntity entityCounts e =
     entityCounts(label e \<mapsto> (case entityCounts (label e) of None \<Rightarrow> 0 | Some n \<Rightarrow> n) + 1)"

definition entityCounts :: "entity list \<Rightarrow> (string \<rightharpoonup> nat)" where
  "entityCounts entities = foldl countEntity Map.empty entities"

definition inheritedNames :: "string list" where
  "inheritedNames =
     [''constructor'', ''toString'', ''toLocaleString'', ''valueOf'', ''hasOwnProperty'',
      ''isPrototypeOf'', ''propertyIsEnumerable'', ''__proto__'', ''__defineGetter__'',
      ''__defineSetter__'', ''__lookupGetter__'', ''__lookupSetter__'']"

section \<open>Notions of the specification\<close>

subsection \<open>The segments of one pass\<close>

text \<open>
  One call of \<open>replace\<close> cuts the string that it scans into segments
  \<open>(start, end, annotated)\<close>: the text before each match, the match, and the text after
  the last match. \<open>contiguous lo segs hi\<close> says that the segments follow one another from
  \<open>lo\<close> to \<open>hi\<close> with no gap and no overlap; \<open>orderedRanges lo ms hi\<close> says that the
  matches lie between \<open>lo\<close> and \<open>hi\<close>, each one after the end of the one before.
\<close>

type_synonym segment = "nat \<times> nat \<times> bool"

fun passSegments :: "(nat \<times> nat) list \<Rightarrow> nat \<Rightarrow> nat \<Rightarrow> segment list" where
  "passSegments [] nextSourcePosition len = [(nextSourcePosition, len, False)]"
| "passSegments ((position, e) # results) nextSourcePosition len =
     (if position \<ge> nextSourcePosition then
        (nextSourcePosition, position, False) # (position, e, True) # passSegments results e len
      else passSegments results nextSourcePosition len)"

fun renderSegment :: "string \<Rightarrow> string \<Rightarrow> segment \<Rightarrow> string" where
  "renderSegment str template (a, b, annotated) =
     (if annotated then getSubstitution (substring str a b) str a template
      else substring str a b)"

fun segmentText :: "string \<Rightarrow> segment \<Rightarrow> string" where
  "segmentText str (a, b, annotated) = substring str a b"

fun contiguous :: "nat \<Rightarrow> segment list \<Rightarrow> nat \<Rightarrow> bool" where
  "contiguous lo [] hi = (lo = hi)"
| "contiguous lo ((a, b, annotated) # segs) hi = (a = lo \<and> a \<le> b \<and> contiguous b segs hi)"

fun orderedRanges :: "nat \<Rightarrow> (nat \<times> nat) list \<Rightarrow> nat \<Rightarrow> bool" where
  "orderedRanges lo [] hi = (lo \<le> hi)"
| "orderedRanges lo ((p, e) # ms) hi = (lo \<le> p \<and> p \<le> e \<and> orderedRanges e ms hi)"

subsection \<open>The text of the markup\<close>

text \<open>
  The returned string is markup. Its text is what stands outside the tags: a tag runs
  from \<^verbatim>\<open><\<close> to the next \<^verbatim>\<open>>\<close>; a tag that starts with \<^verbatim>\<open></\<close> closes an element
  and any other tag opens one. \<open>markupText\<close> lists the characters of the text, each with
  the number of elements open around it; the plain portions are at depth 0 and the
  annotated portions inside a \<^verbatim>\<open>span\<close>.
\<close>

fun markupText :: "bool \<Rightarrow> nat \<Rightarrow> string \<Rightarrow> (char \<times> nat) list" where
  "markupText inTag depth [] = []"
| "markupText True depth (c # cs) =
     (if c = CHR ''>'' then markupText False depth cs else markupText True depth cs)"
| "markupText False depth (c # cs) =
     (if c = CHR ''<'' then
        (case cs of
           [] \<Rightarrow> []
         | d # r \<Rightarrow> if d = CHR ''/'' then markupText True (depth - 1) cs
                    else markupText True (Suc depth) cs)
      else (c, depth) # markupText False depth cs)"

definition textContent :: "string \<Rightarrow> string" where
  "textContent out = map fst (markupText False 0 out)"

text \<open>
  The text that a segment of one pass over the original text shows: an annotated
  segment shows the text of the entity, inside one element, and any other segment shows
  its part of the string.
\<close>

fun segmentMarkup :: "string \<Rightarrow> entity \<Rightarrow> segment \<Rightarrow> (char \<times> nat) list" where
  "segmentMarkup str e (a, b, annotated) =
     (if annotated then map (\<lambda>c. (c, 1)) (entityText e)
      else map (\<lambda>c. (c, 0)) (substring str a b))"

subsection \<open>Entities of the examples\<close>

abbreviation appleSpan :: entity where
  "appleSpan \<equiv> \<lparr> entityText = ''Apple'', label = ''ORG'', description = ''A tech company'' \<rparr>"

abbreviation catSpan :: entity where
  "catSpan \<equiv> \<lparr> entityText = ''cat'', label = ''X'', description = [] \<rparr>"

abbreviation newYorkSpan :: entity where
  "newYorkSpan \<equiv> \<lparr> entityText = ''New York'', label = ''LOCATION'', description = ''A city'' \<rparr>"

abbreviation newSpan :: entity where
  "newSpan \<equiv> \<lparr> entityText = ''New'', label = ''X'', description = [] \<rparr>"

abbreviation moneySpan :: entity where
  "moneySpan \<equiv> \<lparr> entityText = ''$100'', label = ''MONEY'', description = [] \<rparr>"

abbreviation aSpan :: entity where
  "aSpan \<equiv> \<lparr> entityText = ''a'', label = ''X'', description = [] \<rparr>"

abbreviation bSpan :: entity where
  "bSpan \<equiv> \<lparr> entityText = ''b'', label = ''Y'', description = [] \<rparr>"

abbreviation cSpan :: entity where
  "cSpan \<equiv> \<lparr> entityText = ''c'', label = ''Z'', description = [] \<rparr>"

abbreviation upperASpan :: entity where
  "upperASpan \<equiv> \<lparr> entityText = ''A'', label = ''X'', description = [] \<rparr>"

abbreviation secondASpan :: entity where
  "secondASpan \<equiv> \<lparr> entityText = ''a'', label = ''Y'', description = [] \<rparr>"

abbreviation titleSpan :: entity where
  "titleSpan \<equiv> \<lparr> entityText = ''title'', label = ''X'', description = [] \<rparr>"

abbreviation entitySpan :: entity where
  "entitySpan \<equiv> \<lparr> entityText = ''entity'', label = ''Y'', description = [] \<rparr>"

section \<open>Properties of the summarizer\<close>

lemmas summarizer_defs = sentences_def specSentences_def trim_def isWhiteSpace_def
  mockSummarizeText_def selectedSentences_def summaryLength_def jsDivide_def
  specWordCount_def Let_def

subsection \<open>Splitting and trimming\<close>

lemma dropWhile_all_iff: "(\<forall>x \<in> set (dropWhile P xs). P x) \<longleftrightarrow> (\<forall>x \<in> set xs. P x)"
  by (induction xs) auto

lemma trim_Nil_iff: "trim s = [] \<longleftrightarrow> (\<forall>c \<in> set s. isWhiteSpace c)"
  unfolding trim_def by (simp add: dropWhile_eq_Nil_conv dropWhile_all_iff)

lemma split_not_Nil: "split d s \<noteq> []"
  by (induction s) (auto split: list.splits)

lemma join_split: "join [d] (split d s) = s"
proof (induction s)
  case Nil
  then show ?case by simp
next
  case (Cons c cs)
  show ?case
  proof (cases "split d cs")
    case Nil
    then show ?thesis using split_not_Nil by blast
  next
    case (Cons f fs)
    then show ?thesis using Cons.IH by (cases fs) auto
  qed
qed

lemma split_no_separator: "f \<in> set (split d s) \<Longrightarrow> d \<notin> set f"
  by (induction s arbitrary: f) (auto split: list.splits if_splits)


lemma sentences_filter:
  "sentences txt = filter (\<lambda>s. \<not> (\<forall>c \<in> set s. isWhiteSpace c)) (split CHR ''.'' txt)"
  unfolding sentences_def by (simp add: trim_Nil_iff)

lemma trim_sentences: "map trim (sentences txt) = specSentences txt"
  unfolding sentences_def specSentences_def by (simp add: filter_map comp_def)




subsection \<open>Segmentation into sentences\<close>

text \<open>
  Claim C9, as the code has it. The text is split at every period and at nothing else:
  joining the fragments with periods gives the text back, and no fragment holds a period.
  The fragments that are empty or white space only are dropped, the others are kept in
  their order. The fragments are kept as they are, with the white space around them:
  only their trimmed forms are the sentences of the specification.
\<close>

theorem sentence_segmentation:
  "sentences txt = filter (\<lambda>s. \<not> (\<forall>c \<in> set s. isWhiteSpace c)) (split CHR ''.'' txt)
   \<and> join ''.'' (split CHR ''.'' txt) = txt
   \<and> (\<forall>f \<in> set (split CHR ''.'' txt). CHR ''.'' \<notin> set f)
   \<and> map trim (sentences txt) = specSentences txt"
proof (intro conjI ballI)
  show "sentences txt = filter (\<lambda>s. \<not> (\<forall>c \<in> set s. isWhiteSpace c)) (split CHR ''.'' txt)"
    by (rule sentences_filter)
  show "join ''.'' (split CHR ''.'' txt) = txt"
    by (rule join_split)
  show "CHR ''.'' \<notin> set f" if "f \<in> set (split CHR ''.'' txt)" for f
    using that by (rule split_no_separator)
  show "map trim (sentences txt) = specSentences txt"
    by (rule trim_sentences)
qed

theorem sentence_segmentation_witness:
  "sentences ''A. B.'' = [''A'', '' B'']
   \<and> join ''.'' (split CHR ''.'' ''A. B.'') = ''A. B.''
   \<and> '' B'' \<in> set (split CHR ''.'' ''A. B.'') \<and> CHR ''.'' \<notin> set '' B''
   \<and> map trim (sentences ''A. B.'') = [''A'', ''B'']"
proof -
  have m: "'' B'' \<in> set (split CHR ''.'' ''A. B.'')"
    by simp
  have "CHR ''.'' \<notin> set '' B''"
    using sentence_segmentation [of "''A. B.''"] m by blast
  then show ?thesis
    using sentence_segmentation [of "''A. B.''"] m by (simp add: summarizer_defs)
qed

text \<open>
  Claim C9 as it is stated fails: the second sentence of \<^verbatim>\<open>A. B.\<close> keeps its leading
  space.
\<close>

theorem sentences_untrimmed_counterexample:
  "sentences ''A. B.'' \<noteq> specSentences ''A. B.''"
  by (simp add: summarizer_defs)

subsection \<open>The selection\<close>

text \<open>
  Claim C3, as the code has it. The selection is the first \<open>min 3 n\<close> of the \<open>n\<close>
  sentences, in their order; the function has no ratio among its parameters.
  \<open>sentences_used\<close> is the length of the selection and is at most \<open>total_sentences\<close>.
  For \<^verbatim>\<open>A. B. C. D. E.\<close> three of five sentences are used, and the selection holds the
  fragments \<^verbatim>\<open>A\<close>, \<^verbatim>\<open> B\<close> and \<^verbatim>\<open> C\<close>, without their periods; the summary joins
  them again.
\<close>

theorem default_selection:
  "selectedSentences txt = take (min 3 (length (sentences txt))) (sentences txt)
   \<and> summary (mockSummarizeText txt) = join ''. '' (selectedSentences txt) @ ''.''
   \<and> sentences_used (mockSummarizeText txt) = length (selectedSentences txt)
   \<and> total_sentences (mockSummarizeText txt) = length (sentences txt)
   \<and> sentences_used (mockSummarizeText txt) \<le> total_sentences (mockSummarizeText txt)
   \<and> sentences_used (mockSummarizeText ''A. B. C. D. E.'') = 3
   \<and> total_sentences (mockSummarizeText ''A. B. C. D. E.'') = 5
   \<and> selectedSentences ''A. B. C. D. E.'' = [''A'', '' B'', '' C'']
   \<and> summary (mockSummarizeText ''A. B. C. D. E.'') = ''A.  B.  C.''"
proof -
  have ex: "sentences ''A. B. C. D. E.'' = [''A'', '' B'', '' C'', '' D'', '' E'']"
    by (simp add: sentences_def trim_def isWhiteSpace_def)
  have g: "selectedSentences txt = take (min 3 (length (sentences txt))) (sentences txt)"
    by (simp add: selectedSentences_def summaryLength_def)
  have e1: "selectedSentences ''A. B. C. D. E.'' = [''A'', '' B'', '' C'']"
    by (simp add: selectedSentences_def summaryLength_def ex)
  show ?thesis
    by (simp add: g mockSummarizeText_def Let_def summaryLength_def e1 ex)
qed

theorem default_selection_witness:
  "selectedSentences ''A. B.'' = [''A'', '' B'']
   \<and> sentences_used (mockSummarizeText ''A. B.'') = 2
   \<and> total_sentences (mockSummarizeText ''A. B.'') = 2"
  using default_selection [of "''A. B.''"]
  by (simp add: summarizer_defs)

text \<open>
  Claim C3 as it is stated fails in its example: the selection is not the list of
  \<^verbatim>\<open>A.\<close>, \<^verbatim>\<open>B.\<close> and \<^verbatim>\<open>C.\<close>.
\<close>

theorem selection_example_counterexample:
  "selectedSentences ''A. B. C. D. E.'' \<noteq> [''A.'', ''B.'', ''C.'']"
  by (simp add: summarizer_defs)

subsection \<open>No sentence\<close>

text \<open>
  Claim C4, as the code has it. For a text with no sentence the selection is empty, both
  counts are 0 and the summary is the single period that the code appends. Nothing is
  raised. The ratio is not 0: the division is done all the same, and gives 1 over the
  length of the text, and \<^verbatim>\<open>Infinity\<close> for the empty text.
\<close>

theorem zero_sentences:
  assumes "sentences txt = []"
  shows "selectedSentences txt = []
   \<and> summary (mockSummarizeText txt) = ''.''
   \<and> total_sentences (mockSummarizeText txt) = 0
   \<and> sentences_used (mockSummarizeText txt) = 0
   \<and> compression_ratio (mockSummarizeText txt) =
        (if txt = [] then Infinity else Finite (1 / of_nat (length txt)))"
  using assms
  by (simp add: mockSummarizeText_def Let_def selectedSentences_def summaryLength_def
      jsDivide_def)

theorem zero_sentences_witness:
  "sentences ''. .'' = []
   \<and> summary (mockSummarizeText ''. .'') = ''.''
   \<and> sentences_used (mockSummarizeText ''. .'') = 0
   \<and> compression_ratio (mockSummarizeText ''. .'') = Finite (1 / 3)"
proof -
  have h: "sentences ''. .'' = []"
    by (simp add: summarizer_defs)
  show ?thesis
    using zero_sentences [OF h] h by simp
qed

text \<open>Claim C4 as it is stated fails: the ratio of the empty text is not 0.\<close>

theorem empty_text_ratio_counterexample:
  "sentences [] = [] \<and> compression_ratio (mockSummarizeText []) \<noteq> Finite 0"
  by (simp add: summarizer_defs)

subsection \<open>The word counts\<close>






section \<open>Properties of the annotation\<close>


subsection \<open>The pattern is the literal text between two assertions\<close>

lemma syntax_escaped: "c \<in> set syntaxCharacters \<longleftrightarrow> c \<in> set escapedClass"
  by (auto simp: syntaxCharacters_def escapedClass_def)

lemma b_not_escaped: "CHR ''b'' \<notin> set escapedClass"
  by (simp add: escapedClass_def backslash_def)

lemma backslash_escaped: "backslash \<in> set escapedClass"
  by (simp add: escapedClass_def)

lemma escapeRegExp_Cons:
  "escapeRegExp (c # cs) = (if c \<in> set escapedClass then [backslash, c] else [c]) @ escapeRegExp cs"
  by (simp add: escapeRegExp_def)

lemma compile_escaped:
  assumes "compile r = Some as" and "r \<noteq> []"
  shows "compile (escapeRegExp t @ r) = Some (map Lit t @ as)"
proof (induction t)
  case Nil
  then show ?case using assms by (simp add: escapeRegExp_def)
next
  case (Cons c cs)
  obtain d r' where rest: "escapeRegExp cs @ r = d # r'"
    using assms(2) by (cases "escapeRegExp cs @ r") auto
  show ?case
  proof (cases "c \<in> set escapedClass")
    case True
    then have "c \<noteq> CHR ''b''" using b_not_escaped by auto
    then show ?thesis
      using True Cons.IH by (simp add: escapeRegExp_Cons syntax_escaped)
  next
    case False
    then have "c \<noteq> backslash" using backslash_escaped by auto
    then show ?thesis
      using False Cons.IH rest by (simp add: escapeRegExp_Cons syntax_escaped)
  qed
qed

lemma compile_patternSource:
  "compile (patternSource e) = Some (WordBoundary # map Lit (entityText e) @ [WordBoundary])"
proof -
  have tail: "compile [backslash, CHR ''b''] = Some [WordBoundary]"
    by simp
  have "compile (escapeRegExp (entityText e) @ [backslash, CHR ''b''])
          = Some (map Lit (entityText e) @ [WordBoundary])"
    using compile_escaped [OF tail] by simp
  then show ?thesis
    by (simp add: patternSource_def)
qed

subsection \<open>Matching a literal\<close>

lemma matchAtoms_literal:
  "i \<le> length s \<Longrightarrow>
   matchAtoms (map Lit t @ as) s i =
     (if i + length t \<le> length s
         \<and> map canonicalize (substring s i (i + length t)) = map canonicalize t
      then matchAtoms as s (i + length t) else None)"
proof (induction t arbitrary: i)
  case Nil
  then show ?case by (simp add: substring_def)
next
  case (Cons c cs)
  show ?case
  proof (cases "i < length s")
    case True
    then have d: "drop i s = s ! i # drop (Suc i) s"
      by (simp add: Cons_nth_drop_Suc)
    show ?thesis
      using True Cons.IH [of "Suc i"] by (auto simp: substring_def d)
  next
    case False
    then show ?thesis by simp
  qed
qed

lemma matchAtoms_entity:
  "i \<le> length s \<Longrightarrow>
   matchAtoms (WordBoundary # map Lit t @ [WordBoundary]) s i =
     (if isWordBoundary s i \<and> i + length t \<le> length s
         \<and> map canonicalize (substring s i (i + length t)) = map canonicalize t
         \<and> isWordBoundary s (i + length t)
      then Some (i + length t) else None)"
  by (simp add: matchAtoms_literal)

subsection \<open>The matches of a pass\<close>

lemma orderedRanges_mono: "orderedRanges lo ms hi \<Longrightarrow> lo' \<le> lo \<Longrightarrow> orderedRanges lo' ms hi"
  by (cases ms) auto

lemma matchAll_beyond: "length s < i \<Longrightarrow> matchAll as s i = []"
  by (subst matchAll.simps) simp

lemma matchAll_None:
  "i \<le> length s \<Longrightarrow> matchAtoms as s i = None \<Longrightarrow> matchAll as s i = matchAll as s (Suc i)"
  by (subst matchAll.simps) simp

lemma matchAll_Some:
  "i \<le> length s \<Longrightarrow> matchAtoms as s i = Some e \<Longrightarrow>
   matchAll as s i = (i, e) # matchAll as s (if e = i then Suc e else e)"
  by (subst matchAll.simps) simp

lemma matchAll_ordered: "i \<le> length s \<Longrightarrow> orderedRanges i (matchAll as s i) (length s)"
proof (induction as s i rule: matchAll.induct)
  case (1 as s i)
  show ?case
  proof (cases "matchAtoms as s i")
    case None
    have "orderedRanges i (matchAll as s (Suc i)) (length s)"
    proof (cases "Suc i \<le> length s")
      case True
      then have "orderedRanges (Suc i) (matchAll as s (Suc i)) (length s)"
        using 1(1) [OF _ None] 1(3) by simp
      then show ?thesis by (rule orderedRanges_mono) simp
    next
      case False
      then show ?thesis using 1(3) by (simp add: matchAll_beyond)
    qed
    then show ?thesis
      using None 1(3) by (simp add: matchAll_None)
  next
    case (Some e)
    from matchAtoms_bounds [OF Some] 1(3) have b: "i \<le> e" "e \<le> length s" by auto
    let ?n = "if e = i then Suc e else e"
    have "orderedRanges e (matchAll as s ?n) (length s)"
    proof (cases "?n \<le> length s")
      case True
      then have "orderedRanges ?n (matchAll as s ?n) (length s)"
        using 1(2) [OF _ Some] 1(3) by simp
      then show ?thesis by (rule orderedRanges_mono) simp
    next
      case False
      then have "matchAll as s ?n = []" by (simp add: matchAll_beyond)
      then show ?thesis using b by simp
    qed
    then show ?thesis
      using 1(3) b by (simp add: matchAll_Some [OF 1(3) Some])
  qed
qed

lemma matchAll_sound:
  "(p, e) \<in> set (matchAll as s i) \<Longrightarrow> i \<le> p \<and> p \<le> length s \<and> matchAtoms as s p = Some e"
proof (induction as s i rule: matchAll.induct)
  case (1 as s i)
  show ?case
  proof (cases "i > length s")
    case True
    then show ?thesis using 1(3) by (simp add: matchAll_beyond)
  next
    case False
    then have le: "i \<le> length s" by simp
    show ?thesis
    proof (cases "matchAtoms as s i")
      case None
      then have "(p, e) \<in> set (matchAll as s (Suc i))"
        using 1(3) by (simp add: matchAll_None [OF le None])
      then have "Suc i \<le> p \<and> p \<le> length s \<and> matchAtoms as s p = Some e"
        using 1(1) [OF False None] by simp
      then show ?thesis by simp
    next
      case (Some e')
      from matchAtoms_bounds [OF Some] have b: "i \<le> e'" by simp
      let ?n = "if e' = i then Suc e' else e'"
      have "(p, e) = (i, e') \<or> (p, e) \<in> set (matchAll as s ?n)"
        using 1(3) by (simp add: matchAll_Some [OF le Some])
      then show ?thesis
      proof
        assume "(p, e) = (i, e')"
        then show ?thesis using Some le by simp
      next
        assume "(p, e) \<in> set (matchAll as s ?n)"
        then have "?n \<le> p \<and> p \<le> length s \<and> matchAtoms as s p = Some e"
          using 1(2) [OF False Some] by simp
        then show ?thesis using b by (auto split: if_splits)
      qed
    qed
  qed
qed

subsection \<open>The segments of a pass\<close>

lemma accumulateResult_segments:
  "accumulateResult str template ms n
     = concat (map (renderSegment str template) (passSegments ms n (length str)))"
  by (induction ms arbitrary: n) auto

lemma passSegments_contiguous:
  "orderedRanges n ms len \<Longrightarrow> contiguous n (passSegments ms n len) len"
  by (induction ms arbitrary: n) auto

lemma substring_append:
  "a \<le> b \<Longrightarrow> b \<le> c \<Longrightarrow> substring s a b @ substring s b c = substring s a c"
proof -
  assume ab: "a \<le> b" and bc: "b \<le> c"
  have "take (b - a) (drop a s) @ take (c - b) (drop b s)
          = take (b - a) (drop a s) @ take (c - b) (drop (b - a) (drop a s))"
    using ab by simp
  also have "\<dots> = take ((b - a) + (c - b)) (drop a s)"
    by (simp add: take_add)
  finally show ?thesis using ab bc by (simp add: substring_def)
qed

lemma contiguous_text:
  "contiguous lo segs hi \<Longrightarrow> concat (map (segmentText s) segs) = substring s lo hi"
proof (induction segs arbitrary: lo)
  case Nil
  then show ?case by (simp add: substring_def)
next
  case (Cons g segs)
  obtain a b ann where g: "g = (a, b, ann)" by (cases g) auto
  from Cons.prems g have c: "a = lo" "a \<le> b" "contiguous b segs hi" by auto
  have "b \<le> hi" using c(3)
  proof (induction segs arbitrary: b)
    case Nil
    then show ?case by simp
  next
    case (Cons h hs)
    then show ?case by (cases h) fastforce
  qed
  then show ?case
    using Cons.IH [OF c(3)] c g by (simp add: substring_append)
qed


subsection \<open>Word characters and case\<close>

lemma toUpperChar_cases:
  "toUpperChar c = c \<or> (c \<in> set lowerLetters \<and> toUpperChar c \<in> set upperLetters)"
proof (cases "map_of (zip lowerLetters upperLetters) c")
  case None
  then show ?thesis by (simp add: toUpperChar_def)
next
  case (Some u)
  then have "(c, u) \<in> set (zip lowerLetters upperLetters)"
    by (rule map_of_SomeD)
  then have "c \<in> set lowerLetters \<and> u \<in> set upperLetters"
    by (auto dest: set_zip_leftD set_zip_rightD)
  then show ?thesis using Some by (simp add: toUpperChar_def)
qed

lemma toLowerChar_cases:
  "toLowerChar c = c \<or> (c \<in> set upperLetters \<and> toLowerChar c \<in> set lowerLetters)"
proof (cases "map_of (zip upperLetters lowerLetters) c")
  case None
  then show ?thesis by (simp add: toLowerChar_def)
next
  case (Some l)
  then have "(c, l) \<in> set (zip upperLetters lowerLetters)"
    by (rule map_of_SomeD)
  then have "c \<in> set upperLetters \<and> l \<in> set lowerLetters"
    by (auto dest: set_zip_leftD set_zip_rightD)
  then show ?thesis using Some by (simp add: toLowerChar_def)
qed

lemma letters_word: "c \<in> set lowerLetters \<or> c \<in> set upperLetters \<Longrightarrow> isWordChar c"
  by (auto simp: isWordChar_def)

lemma isWordChar_canonicalize: "isWordChar (canonicalize c) = isWordChar c"
  using toUpperChar_cases [of c] letters_word by (auto simp: canonicalize_def)

lemma canonicalize_word:
  "canonicalize a = canonicalize b \<Longrightarrow> isWordChar a = isWordChar b"
  by (metis isWordChar_canonicalize)

lemma toLowerCase_free:
  assumes "x \<notin> set lowerLetters" and "x \<notin> set s"
  shows "x \<notin> set (toLowerCase s)"
proof
  assume "x \<in> set (toLowerCase s)"
  then obtain c where c: "c \<in> set s" "x = toLowerChar c"
    by (auto simp: toLowerCase_def)
  with toLowerChar_cases [of c] assms show False by auto
qed

subsection \<open>The text of the markup of one pass\<close>

lemma getSubstitution_plain:
  "CHR ''$'' \<notin> set template \<Longrightarrow> getSubstitution m s p template = template"
  by (induction m s p template rule: getSubstitution.induct) auto

lemma getSubstitution_literal:
  "literalTemplate template \<Longrightarrow> getSubstitution m s p template = template"
  by (induction m s p template rule: getSubstitution.induct) auto


lemma markupText_plain:
  "CHR ''<'' \<notin> set g \<Longrightarrow>
   markupText False d (g @ rest) = map (\<lambda>c. (c, d)) g @ markupText False d rest"
  by (induction g) auto

lemma markupText_inTag:
  "CHR ''>'' \<notin> set body \<Longrightarrow>
   markupText True d (body @ CHR ''>'' # rest) = markupText False d rest"
  by (induction body) auto

lemma markupText_openTag:
  assumes "CHR ''>'' \<notin> set (label e)" and "CHR ''>'' \<notin> set (description e)"
  shows "markupText False d (openTag e @ rest) = markupText False (Suc d) rest"
proof -
  let ?body = "''span class='' @ [doubleQuote] @ ''entity-highlight entity-''
     @ toLowerCase (label e) @ [doubleQuote] @ '' title='' @ [doubleQuote]
     @ description e @ [doubleQuote]"
  have l: "CHR ''>'' \<notin> set (toLowerCase (label e))"
    using assms(1) by (intro toLowerCase_free) (simp_all add: lowerLetters_def)
  have body: "CHR ''>'' \<notin> set ?body"
    using l assms(2) by (simp add: doubleQuote_def)
  have "openTag e @ rest = CHR ''<'' # ?body @ CHR ''>'' # rest"
    by (simp add: openTag_def)
  then have "markupText False d (openTag e @ rest)
               = markupText True (Suc d) (?body @ CHR ''>'' # rest)"
    by simp
  also have "\<dots> = markupText False (Suc d) rest"
    using body by (rule markupText_inTag)
  finally show ?thesis .
qed

lemma markupText_replacement:
  assumes "CHR ''>'' \<notin> set (label e)" and "CHR ''>'' \<notin> set (description e)"
    and "CHR ''<'' \<notin> set (entityText e)"
  shows "markupText False d (replacement e @ rest)
           = map (\<lambda>c. (c, Suc d)) (entityText e) @ markupText False d rest"
proof -
  have "markupText False d (replacement e @ rest)
          = markupText False (Suc d) (entityText e @ ''</span>'' @ rest)"
    using markupText_openTag [OF assms(1,2)] by (simp add: replacement_def)
  also have "\<dots> = map (\<lambda>c. (c, Suc d)) (entityText e)
                     @ markupText False (Suc d) (''</span>'' @ rest)"
    using assms(3) by (rule markupText_plain)
  also have "markupText False (Suc d) (''</span>'' @ rest) = markupText False d rest"
    by simp
  finally show ?thesis .
qed

lemma set_substring: "set (substring s a b) \<subseteq> set s"
  unfolding substring_def by (meson set_take_subset set_drop_subset subset_trans)


lemma markupText_pass:
  assumes "CHR ''>'' \<notin> set (label e)" and "CHR ''>'' \<notin> set (description e)"
    and "CHR ''<'' \<notin> set (entityText e)" and "CHR ''<'' \<notin> set s"
    and "literalTemplate (replacement e)"
  shows "markupText False 0 (accumulateResult s (replacement e) ms n)
           = concat (map (segmentMarkup s e) (passSegments ms n (length s)))"
proof (induction ms arbitrary: n)
  case Nil
  have "CHR ''<'' \<notin> set (substring s n (length s))"
    using assms(4) set_substring by fastforce
  from markupText_plain [OF this, of 0 "[]"] show ?case by simp
next
  case (Cons m ms)
  obtain p q where m: "m = (p, q)" by (cases m) auto
  show ?case
  proof (cases "n \<le> p")
    case True
    have g: "CHR ''<'' \<notin> set (substring s n p)"
      using assms(4) set_substring by fastforce
    have "accumulateResult s (replacement e) (m # ms) n
            = substring s n p @ replacement e @ accumulateResult s (replacement e) ms q"
      using True m by (simp add: getSubstitution_literal [OF assms(5)])
    then have "markupText False 0 (accumulateResult s (replacement e) (m # ms) n)
            = map (\<lambda>c. (c, 0)) (substring s n p) @ map (\<lambda>c. (c, Suc 0)) (entityText e)
              @ markupText False 0 (accumulateResult s (replacement e) ms q)"
      by (simp add: markupText_plain [OF g] markupText_replacement [OF assms(1,2,3)])
    then show ?thesis
      using True m Cons.IH [of q] by simp
  next
    case False
    then show ?thesis using m Cons.IH [of n] by simp
  qed
qed


subsection \<open>Sorting\<close>

lemma occursAt_le: "occursAt s t i \<Longrightarrow> i \<le> length s"
  by (simp add: occursAt_def)

lemma lastIndexFrom_none:
  "(\<forall>i \<le> k. \<not> occursAt s t i) \<Longrightarrow> lastIndexFrom s t k = -1"
  by (induction k) auto

lemma lastIndexFrom_some:
  "i \<le> k \<Longrightarrow> occursAt s t i \<Longrightarrow>
   \<exists>m. lastIndexFrom s t k = int m \<and> i \<le> m \<and> m \<le> k \<and> occursAt s t m
       \<and> (\<forall>j. m < j \<and> j \<le> k \<longrightarrow> \<not> occursAt s t j)"
proof (induction k)
  case 0
  then show ?case by auto
next
  case (Suc k)
  show ?case
  proof (cases "occursAt s t (Suc k)")
    case True
    have "lastIndexFrom s t (Suc k) = int (Suc k)"
      using True by simp
    then show ?thesis using True Suc.prems(1) by (intro exI [of _ "Suc k"]) auto
  next
    case False
    then have "i \<le> k" using Suc.prems by (metis le_SucE)
    from Suc.IH [OF this Suc.prems(2)] obtain m where
      m: "lastIndexFrom s t k = int m" "i \<le> m" "m \<le> k" "occursAt s t m"
         "\<forall>j. m < j \<and> j \<le> k \<longrightarrow> \<not> occursAt s t j"
      by blast
    have "\<forall>j. m < j \<and> j \<le> Suc k \<longrightarrow> \<not> occursAt s t j"
      using m(5) False by (metis le_SucE)
    then show ?thesis using m False by auto
  qed
qed

lemma lastIndexOf_absent: "(\<forall>i. \<not> occursAt s t i) \<Longrightarrow> lastIndexOf s t = -1"
  by (simp add: lastIndexOf_def lastIndexFrom_none)

lemma lastIndexOf_last:
  assumes "occursAt s t i"
  shows "\<exists>m. lastIndexOf s t = int m \<and> occursAt s t m \<and> (\<forall>j. occursAt s t j \<longrightarrow> j \<le> m)"
proof -
  from lastIndexFrom_some [OF occursAt_le [OF assms] assms] obtain m where
    m: "lastIndexFrom s t (length s) = int m" "occursAt s t m"
       "\<forall>j. m < j \<and> j \<le> length s \<longrightarrow> \<not> occursAt s t j"
    by blast
  have "\<forall>j. occursAt s t j \<longrightarrow> j \<le> m"
    using m(3) occursAt_le by (metis not_le_imp_less)
  then show ?thesis using m by (auto simp: lastIndexOf_def)
qed

lemma sortEntities_descending:
  "sorted_wrt (\<lambda>a b. lastIndexOf txt (entityText a) \<ge> lastIndexOf txt (entityText b))
     (sortEntities txt es)"
proof -
  have "sorted (map (sortKey txt) (sortEntities txt es))"
    by (simp add: sortEntities_def)
  then show ?thesis
    by (simp add: sorted_map sortKey_def)
qed

lemma sortEntities_stable:
  "filter (\<lambda>e. lastIndexOf txt (entityText e) = k) (sortEntities txt es)
     = filter (\<lambda>e. lastIndexOf txt (entityText e) = k) es"
proof -
  have "filter (\<lambda>e. sortKey txt e = - k) (sortEntities txt es)
          = filter (\<lambda>e. sortKey txt e = - k) es"
    unfolding sortEntities_def by (rule sort_key_stable)
  then show ?thesis by (simp add: sortKey_def)
qed

lemma sortEntities_mset: "mset (sortEntities txt es) = mset es"
  by (simp add: sortEntities_def)

lemma sortEntities_id:
  assumes "sorted_wrt (\<lambda>a b. lastIndexOf txt (entityText a) \<ge> lastIndexOf txt (entityText b)) es"
  shows "sortEntities txt es = es"
proof -
  have "sorted (map (sortKey txt) es)"
    using assms by (simp add: sorted_map sortKey_def)
  then show ?thesis
    unfolding sortEntities_def by (rule sort_key_id_if_sorted)
qed

subsection \<open>Counting\<close>

lemma foldl_countEntity:
  "foldl countEntity m es l =
     (if \<exists>e \<in> set es. label e = l
      then Some ((case m l of None \<Rightarrow> 0 | Some n \<Rightarrow> n) + length (filter (\<lambda>e. label e = l) es))
      else m l)"
proof (induction es arbitrary: m)
  case Nil
  then show ?case by simp
next
  case (Cons e es)
  show ?case
    by (simp add: Cons.IH [of "countEntity m e"]) (auto simp: countEntity_def split: option.splits)
qed

lemma entityCounts_count:
  "entityCounts es l =
     (if \<exists>e \<in> set es. label e = l then Some (length (filter (\<lambda>e. label e = l) es)) else None)"
  by (simp add: entityCounts_def foldl_countEntity)

subsection \<open>One entity\<close>

lemma compile_entity: "compile (patternSource e) = Some (entityAtoms e)"
  by (simp add: compile_patternSource entityAtoms_def)

lemma highlightEntity_replace:
  "highlightEntity e s = Inr (replace s (entityAtoms e) (replacement e))"
  by (simp add: highlightEntity_def compile_entity)


lemma entity_matches:
  assumes "(p, q) \<in> set (matchAll (entityAtoms e) s i)"
  shows "q = p + length (entityText e) \<and> q \<le> length s
         \<and> map canonicalize (substring s p q) = map canonicalize (entityText e)
         \<and> isWordBoundary s p \<and> isWordBoundary s q"
proof -
  from matchAll_sound [OF assms] have p: "p \<le> length s"
    and m: "matchAtoms (entityAtoms e) s p = Some q" by simp_all
  from m show ?thesis
    unfolding entityAtoms_def matchAtoms_entity [OF p] by (auto split: if_splits)
qed


lemma markupText_entity:
  assumes "CHR ''<'' \<notin> set s" and "CHR ''<'' \<notin> set (entityText e)"
    and "CHR ''>'' \<notin> set (label e) \<union> set (description e)"
    and "literalTemplate (replacement e)"
  shows "markupText False 0 (replace s (entityAtoms e) (replacement e))
         = concat (map (segmentMarkup s e)
             (passSegments (matchAll (entityAtoms e) s 0) 0 (length s)))"
proof -
  have gt: "CHR ''>'' \<notin> set (label e)" "CHR ''>'' \<notin> set (description e)"
    using assms(3) by simp_all
  show ?thesis
    unfolding replace_def
    by (rule markupText_pass [OF gt assms(2) assms(1) assms(4)])
qed

lemma segmentMarkup_depth: "(c, d) \<in> set (segmentMarkup s e g) \<Longrightarrow> d \<le> 1"
  by (cases g) (auto split: if_splits)

lemma segments_depth: "(c, d) \<in> set (concat (map (segmentMarkup s e) segs)) \<Longrightarrow> d \<le> 1"
  using segmentMarkup_depth by fastforce

lemma matchAll_complete:
  "i \<le> p \<Longrightarrow> p \<le> length s \<Longrightarrow> matchAtoms as s p = Some q \<Longrightarrow>
   (p, q) \<in> set (matchAll as s i)
   \<or> (\<exists>(p', q') \<in> set (matchAll as s i). p' < p \<and> p < q')"
proof (induction as s i rule: matchAll.induct)
  case (1 as s i)
  from 1(3,4) have le: "i \<le> length s" by simp
  show ?case
  proof (cases "matchAtoms as s i")
    case None
    then have "p \<noteq> i" using 1(5) by auto
    then have "Suc i \<le> p" using 1(3) by simp
    from 1(1) [OF _ None this 1(4) 1(5)] le show ?thesis
      by (simp add: matchAll_None [OF le None])
  next
    case (Some e)
    let ?n = "if e = i then Suc e else e"
    have unfold: "matchAll as s i = (i, e) # matchAll as s ?n"
      by (rule matchAll_Some [OF le Some])
    show ?thesis
    proof (cases "p = i")
      case True
      then show ?thesis using Some 1(5) unfold by simp
    next
      case False
      then have ip: "i < p" using 1(3) by simp
      show ?thesis
      proof (cases "?n \<le> p")
        case True
        from 1(2) [OF _ Some True 1(4) 1(5)] le
        have "(p, q) \<in> set (matchAll as s ?n)
              \<or> (\<exists>(p', q') \<in> set (matchAll as s ?n). p' < p \<and> p < q')"
          by simp
        then show ?thesis unfolding unfold by auto
      next
        case False
        then have "p < e" using ip by (auto split: if_splits)
        then show ?thesis unfolding unfold using ip by auto
      qed
    qed
  qed
qed

lemma word_edges:
  assumes "map canonicalize u = map canonicalize t" and "t \<noteq> []"
  shows "isWordChar (hd u) = isWordChar (hd t)" and "isWordChar (last u) = isWordChar (last t)"
proof -
  from assms have u: "u \<noteq> []" by auto
  have "canonicalize (hd u) = canonicalize (hd t)"
    using assms u by (metis hd_map)
  then show "isWordChar (hd u) = isWordChar (hd t)"
    by (rule canonicalize_word)
  have "canonicalize (last u) = canonicalize (last t)"
    using assms u by (metis last_map)
  then show "isWordChar (last u) = isWordChar (last t)"
    by (rule canonicalize_word)
qed

lemma substring_edges:
  assumes "p < q" and "q \<le> length s"
  shows "hd (substring s p q) = s ! p" and "last (substring s p q) = s ! (q - 1)"
proof -
  have n: "take (q - p) (drop p s) \<noteq> []" using assms by simp
  show "hd (substring s p q) = s ! p"
    using assms by (simp add: substring_def hd_drop_conv_nth)
  have len: "length (take (q - p) (drop p s)) = q - p"
    using assms by simp
  have "last (take (q - p) (drop p s)) = take (q - p) (drop p s) ! (q - p - 1)"
    using n len by (simp add: last_conv_nth)
  also have "\<dots> = s ! (p + (q - p - 1))"
    using assms by simp
  finally show "last (substring s p q) = s ! (q - 1)"
    using assms by (simp add: substring_def)
qed

lemma whole_word:
  assumes m: "(p, q) \<in> set (matchAll (entityAtoms e) s i)"
    and t: "entityText e \<noteq> []"
    and w: "isWordChar (hd (entityText e))" "isWordChar (last (entityText e))"
  shows "\<not> isWordCharAt s (int p - 1) \<and> \<not> isWordCharAt s (int q)"
proof -
  from entity_matches [OF m] have q: "q = p + length (entityText e)" "q \<le> length s"
    and c: "map canonicalize (substring s p q) = map canonicalize (entityText e)"
    and b: "isWordBoundary s p" "isWordBoundary s q" by blast+
  from q t have pq: "p < q" by simp
  from word_edges [OF c t] w substring_edges [OF pq q(2)]
  have "isWordChar (s ! p)" "isWordChar (s ! (q - 1))" by simp_all
  then have "isWordCharAt s (int p)" "isWordCharAt s (int q - 1)"
    using pq q(2) by (simp_all add: isWordCharAt_def nat_diff_distrib')
  then show ?thesis
    using b by (simp add: isWordBoundary_def)
qed

subsection \<open>The order of the passes\<close>

text \<open>
  Claim C6. The entities are sorted before the first replacement, and the passes run in
  the sorted order. The sorted list is in descending order of \<open>lastIndexOf\<close>, the
  entities of equal index keep the order of the input, and no entity is lost or added.
  \<open>lastIndexOf\<close> is the last offset at which the text of the entity occurs in the
  original string as it is written, and \<open>-1\<close> when it does not occur.
\<close>

theorem processing_order:
  "snd (highlightEntities txt es) = sortEntities txt es
   \<and> fst (highlightEntities txt es) = forEachEntity (sortEntities txt es) txt
   \<and> sorted_wrt (\<lambda>a b. lastIndexOf txt (entityText a) \<ge> lastIndexOf txt (entityText b))
        (sortEntities txt es)
   \<and> (\<forall>k. filter (\<lambda>e. lastIndexOf txt (entityText e) = k) (sortEntities txt es)
            = filter (\<lambda>e. lastIndexOf txt (entityText e) = k) es)
   \<and> set (sortEntities txt es) = set es
   \<and> (\<forall>t. (\<forall>i. \<not> occursAt txt t i) \<longrightarrow> lastIndexOf txt t = -1)
   \<and> (\<forall>t i. occursAt txt t i \<longrightarrow>
        (\<exists>m. lastIndexOf txt t = int m \<and> occursAt txt t m \<and> (\<forall>j. occursAt txt t j \<longrightarrow> j \<le> m)))"
proof (intro conjI allI impI)
  show "snd (highlightEntities txt es) = sortEntities txt es"
    by (simp add: highlightEntities_def Let_def)
  show "fst (highlightEntities txt es) = forEachEntity (sortEntities txt es) txt"
    by (simp add: highlightEntities_def Let_def)
  show "sorted_wrt (\<lambda>a b. lastIndexOf txt (entityText a) \<ge> lastIndexOf txt (entityText b))
        (sortEntities txt es)"
    by (rule sortEntities_descending)
  show "filter (\<lambda>e. lastIndexOf txt (entityText e) = k) (sortEntities txt es)
            = filter (\<lambda>e. lastIndexOf txt (entityText e) = k) es" for k
    by (rule sortEntities_stable)
  show "set (sortEntities txt es) = set es"
    by (simp add: sortEntities_def)
  show "lastIndexOf txt t = -1" if "\<forall>i. \<not> occursAt txt t i" for t
    using that by (rule lastIndexOf_absent)
  show "\<exists>m. lastIndexOf txt t = int m \<and> occursAt txt t m \<and> (\<forall>j. occursAt txt t j \<longrightarrow> j \<le> m)"
    if "occursAt txt t i" for t i
    using that by (rule lastIndexOf_last)
qed

text \<open>
  The five entities of the witness have the indices 6, 4, 2, -1 and 4: the two entities
  of index 4 keep their order.
\<close>

theorem processing_order_witness:
  "snd (highlightEntities ''a b a c'' [cSpan, aSpan, bSpan, upperASpan, secondASpan])
     = [cSpan, aSpan, secondASpan, bSpan, upperASpan]
   \<and> (\<forall>i. \<not> occursAt ''a b a c'' ''A'' i) \<and> lastIndexOf ''a b a c'' ''A'' = -1
   \<and> occursAt ''a b a c'' ''a'' 4 \<and> lastIndexOf ''a b a c'' ''a'' = 4"
proof -
  have ev: "sortEntities ''a b a c'' [cSpan, aSpan, bSpan, upperASpan, secondASpan]
     = [cSpan, aSpan, secondASpan, bSpan, upperASpan]"
    by code_simp
  have "\<not> occursAt ''a b a c'' ''A'' i" for i
  proof (cases "i < 7")
    case True
    then have "i \<in> set [0, 1, 2, 3, 4, 5, 6]" by auto
    moreover have "\<forall>j \<in> set [0, 1, 2, 3, 4, 5, 6]. \<not> occursAt ''a b a c'' ''A'' j"
      by code_simp
    ultimately show ?thesis by blast
  next
    case False
    then show ?thesis by (simp add: occursAt_def)
  qed
  then have absent: "\<forall>i. \<not> occursAt ''a b a c'' ''A'' i" by simp
  have n: "lastIndexOf ''a b a c'' ''A'' = -1"
    using processing_order [of "''a b a c''" "[]"] absent by blast
  have o: "occursAt ''a b a c'' ''a'' 4"
    by code_simp
  have l: "lastIndexOf ''a b a c'' ''a'' = 4"
    by code_simp
  show ?thesis
    using processing_order [of "''a b a c''" "[cSpan, aSpan, bSpan, upperASpan, secondASpan]"]
      ev absent n o l
    by simp
qed

subsection \<open>The array after the call\<close>

text \<open>
  Claim C10, as the code has it. The sort is done in the array of the caller: after the
  call it holds the same entities, each as often as before, in descending order of
  \<open>lastIndexOf\<close>, the entities of equal index in the order that they had before; it is
  left as it was when it was in descending order of \<open>lastIndexOf\<close> already.
\<close>

theorem entities_reordered:
  "mset (snd (highlightEntities txt es)) = mset es
   \<and> length (snd (highlightEntities txt es)) = length es
   \<and> sorted_wrt (\<lambda>a b. lastIndexOf txt (entityText a) \<ge> lastIndexOf txt (entityText b))
        (snd (highlightEntities txt es))
   \<and> (\<forall>k. filter (\<lambda>e. lastIndexOf txt (entityText e) = k) (snd (highlightEntities txt es))
            = filter (\<lambda>e. lastIndexOf txt (entityText e) = k) es)
   \<and> (sorted_wrt (\<lambda>a b. lastIndexOf txt (entityText a) \<ge> lastIndexOf txt (entityText b)) es
        \<longrightarrow> snd (highlightEntities txt es) = es)"
proof -
  have s: "snd (highlightEntities txt es) = sortEntities txt es"
    by (simp add: highlightEntities_def Let_def)
  have len: "length (sortEntities txt es) = length es"
    by (simp add: sortEntities_def)
  show ?thesis
    unfolding s
    using len sortEntities_mset sortEntities_descending sortEntities_stable sortEntities_id
    by blast
qed

theorem entities_reordered_witness:
  "sorted_wrt (\<lambda>a b. lastIndexOf ''a b'' (entityText a) \<ge> lastIndexOf ''a b'' (entityText b))
     [bSpan, aSpan]
   \<and> snd (highlightEntities ''a b'' [bSpan, aSpan]) = [bSpan, aSpan]
   \<and> mset (snd (highlightEntities ''a b a'' [bSpan, aSpan, secondASpan]))
       = mset [bSpan, aSpan, secondASpan]
   \<and> sorted_wrt (\<lambda>a b. lastIndexOf ''a b a'' (entityText a) \<ge> lastIndexOf ''a b a'' (entityText b))
       (snd (highlightEntities ''a b a'' [bSpan, aSpan, secondASpan]))
   \<and> snd (highlightEntities ''a b a'' [bSpan, aSpan, secondASpan]) = [aSpan, secondASpan, bSpan]"
proof -
  have l: "lastIndexOf ''a b'' ''a'' = 0" "lastIndexOf ''a b'' ''b'' = 2"
    by code_simp+
  have h: "sorted_wrt (\<lambda>a b. lastIndexOf ''a b'' (entityText a) \<ge> lastIndexOf ''a b'' (entityText b))
     [bSpan, aSpan]"
    using l by simp
  have u: "snd (highlightEntities ''a b'' [bSpan, aSpan]) = [bSpan, aSpan]"
    using entities_reordered [of "''a b''" "[bSpan, aSpan]"] h by blast
  have ev: "snd (highlightEntities ''a b a'' [bSpan, aSpan, secondASpan]) = [aSpan, secondASpan, bSpan]"
    by code_simp
  note w = entities_reordered [of "''a b a''" "[bSpan, aSpan, secondASpan]"]
  have "mset (snd (highlightEntities ''a b a'' [bSpan, aSpan, secondASpan]))
       = mset [bSpan, aSpan, secondASpan]"
    using w by blast
  moreover have "sorted_wrt (\<lambda>a b. lastIndexOf ''a b a'' (entityText a) \<ge> lastIndexOf ''a b a'' (entityText b))
       (snd (highlightEntities ''a b a'' [bSpan, aSpan, secondASpan]))"
    using w by blast
  ultimately show ?thesis
    using h u ev by simp
qed

text \<open>
  Claim C10 as it is stated fails: the call leaves the entities \<^verbatim>\<open>a\<close> and \<^verbatim>\<open>b\<close> of
  the text \<^verbatim>\<open>a b\<close> in the other order.
\<close>

theorem input_list_reordered_counterexample:
  "snd (highlightEntities ''a b'' [aSpan, bSpan]) = [bSpan, aSpan]
   \<and> snd (highlightEntities ''a b'' [aSpan, bSpan]) \<noteq> [aSpan, bSpan]"
  by code_simp

subsection \<open>Matching\<close>

text \<open>
  Claim C7, as the code has it. Every syntax character of the text of the entity is
  escaped: the pattern compiles to the characters of the text between two assertions.
  A match has the length of the text, equals it up to the case of the letters, and has
  a word boundary at each end; an occurrence with these properties is matched unless
  it starts inside an earlier match of the same pass. For a text that begins and ends
  with a word character the boundaries say that no word character stands before or
  after the match. In \<^verbatim>\<open>cat category catalog\<close> the entity \<^verbatim>\<open>cat\<close> is matched once, at
  the first word.
\<close>

theorem span_matching:
  "compile (patternSource e) = Some (WordBoundary # map Lit (entityText e) @ [WordBoundary])
   \<and> (\<forall>s p q. (p, q) \<in> set (matchAll (entityAtoms e) s 0) \<longrightarrow>
         q = p + length (entityText e) \<and> q \<le> length s
         \<and> map canonicalize (substring s p q) = map canonicalize (entityText e)
         \<and> isWordBoundary s p \<and> isWordBoundary s q)
   \<and> (\<forall>s p. p + length (entityText e) \<le> length s
         \<and> map canonicalize (substring s p (p + length (entityText e)))
             = map canonicalize (entityText e)
         \<and> isWordBoundary s p \<and> isWordBoundary s (p + length (entityText e)) \<longrightarrow>
         (p, p + length (entityText e)) \<in> set (matchAll (entityAtoms e) s 0)
         \<or> (\<exists>(p', q') \<in> set (matchAll (entityAtoms e) s 0). p' < p \<and> p < q'))
   \<and> (entityText e \<noteq> [] \<and> isWordChar (hd (entityText e)) \<and> isWordChar (last (entityText e)) \<longrightarrow>
        (\<forall>s p q. (p, q) \<in> set (matchAll (entityAtoms e) s 0) \<longrightarrow>
           \<not> isWordCharAt s (int p - 1) \<and> \<not> isWordCharAt s (int q)))
   \<and> matchAll (entityAtoms catSpan) ''cat category catalog'' 0 = [(0, 3)]
   \<and> fst (highlightEntities ''cat category catalog'' [catSpan])
        = Inr (replacement catSpan @ '' category catalog'')"
proof (intro conjI allI impI)
  show "compile (patternSource e) = Some (WordBoundary # map Lit (entityText e) @ [WordBoundary])"
    by (rule compile_patternSource)
  show "q = p + length (entityText e)" "q \<le> length s"
    "map canonicalize (substring s p q) = map canonicalize (entityText e)"
    "isWordBoundary s p" "isWordBoundary s q"
    if "(p, q) \<in> set (matchAll (entityAtoms e) s 0)" for s p q
    using entity_matches [OF that] by blast+
  show "(p, p + length (entityText e)) \<in> set (matchAll (entityAtoms e) s 0)
         \<or> (\<exists>(p', q') \<in> set (matchAll (entityAtoms e) s 0). p' < p \<and> p < q')"
    if h: "p + length (entityText e) \<le> length s
         \<and> map canonicalize (substring s p (p + length (entityText e)))
             = map canonicalize (entityText e)
         \<and> isWordBoundary s p \<and> isWordBoundary s (p + length (entityText e))" for s p
  proof -
    from h have p: "p \<le> length s" by simp
    have "matchAtoms (entityAtoms e) s p = Some (p + length (entityText e))"
      unfolding entityAtoms_def matchAtoms_entity [OF p] using h by simp
    from matchAll_complete [OF _ p this, of 0] show ?thesis by simp
  qed
  show "\<not> isWordCharAt s (int p - 1)" "\<not> isWordCharAt s (int q)"
    if "entityText e \<noteq> [] \<and> isWordChar (hd (entityText e)) \<and> isWordChar (last (entityText e))"
      and "(p, q) \<in> set (matchAll (entityAtoms e) s 0)" for s p q
    using whole_word [OF that(2)] that(1) by simp_all
  show "matchAll (entityAtoms catSpan) ''cat category catalog'' 0 = [(0, 3)]"
    by code_simp
  show "fst (highlightEntities ''cat category catalog'' [catSpan])
        = Inr (replacement catSpan @ '' category catalog'')"
    by code_simp
qed

theorem span_matching_witness:
  "(0, 3) \<in> set (matchAll (entityAtoms catSpan) ''CAT scan'' 0)
   \<and> map canonicalize (substring ''CAT scan'' 0 3) = map canonicalize ''cat''
   \<and> isWordBoundary ''CAT scan'' 0 \<and> isWordBoundary ''CAT scan'' 3
   \<and> \<not> isWordCharAt ''CAT scan'' (int 0 - 1) \<and> \<not> isWordCharAt ''CAT scan'' (int 3)
   \<and> matchAll (entityAtoms catSpan) ''a cat'' 0 = [(2, 5)]
   \<and> compile (patternSource moneySpan)
       = Some [WordBoundary, Lit CHR ''$'', Lit CHR ''1'', Lit CHR ''0'', Lit CHR ''0'', WordBoundary]"
proof -
  have m: "(0, 3) \<in> set (matchAll (entityAtoms catSpan) ''CAT scan'' 0)"
    by code_simp
  have w: "entityText catSpan \<noteq> [] \<and> isWordChar (hd (entityText catSpan))
      \<and> isWordChar (last (entityText catSpan))"
    by code_simp
  have c: "compile (patternSource moneySpan)
       = Some [WordBoundary, Lit CHR ''$'', Lit CHR ''1'', Lit CHR ''0'', Lit CHR ''0'', WordBoundary]"
    using span_matching [of moneySpan] by simp
  have s: "map canonicalize (substring ''CAT scan'' 0 3) = map canonicalize (entityText catSpan)
     \<and> isWordBoundary ''CAT scan'' 0 \<and> isWordBoundary ''CAT scan'' 3
     \<and> \<not> isWordCharAt ''CAT scan'' (int 0 - 1) \<and> \<not> isWordCharAt ''CAT scan'' (int 3)"
    using span_matching [of catSpan] m w by blast
  have o: "2 + length (entityText catSpan) \<le> length ''a cat''
     \<and> map canonicalize (substring ''a cat'' 2 (2 + length (entityText catSpan)))
         = map canonicalize (entityText catSpan)
     \<and> isWordBoundary ''a cat'' 2 \<and> isWordBoundary ''a cat'' (2 + length (entityText catSpan))"
    by code_simp
  have ev: "matchAll (entityAtoms catSpan) ''a cat'' 0 = [(2, 5)]"
    by code_simp
  have "(2, 2 + length (entityText catSpan)) \<in> set (matchAll (entityAtoms catSpan) ''a cat'' 0)
     \<or> (\<exists>(p', q') \<in> set (matchAll (entityAtoms catSpan) ''a cat'' 0). p' < 2 \<and> 2 < q')"
    using span_matching [of catSpan] o by blast
  then show ?thesis
    using m c s ev by simp
qed

text \<open>
  Claim C7 as it is stated fails for a text that begins with a character that is not a
  word character: \<^verbatim>\<open>$100\<close> is annotated after the word character \<^verbatim>\<open>x\<close>, and is not
  annotated between two spaces.
\<close>

theorem non_word_edge_counterexample:
  "fst (highlightEntities ''x$100'' [moneySpan]) = Inr (''x'' @ replacement moneySpan)
   \<and> isWordCharAt ''x$100'' 0
   \<and> fst (highlightEntities ''a $100 b'' [moneySpan]) = Inr ''a $100 b''"
  by code_simp

subsection \<open>The segments of one pass\<close>

text \<open>
  Claim C2, as the code has it. One pass, for one entity, cuts the string that it scans
  into segments that follow one another from 0 to the length of the string, with no gap
  and no overlap: the matches, in ascending order and each after the end of the one
  before, and the text between them. The result of the pass is the string with each
  match replaced once. When the string holds no \<^verbatim>\<open><\<close>, the text of the entity no
  \<^verbatim>\<open><\<close>, its label and description no \<^verbatim>\<open>>\<close>, and its replacement none of the patterns
  \<^verbatim>\<open>$$\<close>, \<^verbatim>\<open>$&\<close>, \<^verbatim>\<open>$`\<close> and \<^verbatim>\<open>$'\<close>, no character of the result stands inside more
  than one element. Nothing records what was annotated: the next pass scans the whole
  result of this one, markup included, and a pass matches at every index of the string
  that it scans where its pattern matches, unless the index lies inside an earlier
  match of the same pass.
\<close>

theorem pass_segments:
  "highlightEntity e s
     = Inr (concat (map (renderSegment s (replacement e))
              (passSegments (matchAll (entityAtoms e) s 0) 0 (length s))))
   \<and> orderedRanges 0 (matchAll (entityAtoms e) s 0) (length s)
   \<and> contiguous 0 (passSegments (matchAll (entityAtoms e) s 0) 0 (length s)) (length s)
   \<and> concat (map (segmentText s) (passSegments (matchAll (entityAtoms e) s 0) 0 (length s))) = s
   \<and> (CHR ''<'' \<notin> set s \<and> CHR ''<'' \<notin> set (entityText e)
        \<and> CHR ''>'' \<notin> set (label e) \<union> set (description e)
        \<and> literalTemplate (replacement e) \<longrightarrow>
      (\<forall>(c, d) \<in> set (markupText False 0 (replace s (entityAtoms e) (replacement e))). d \<le> 1))
   \<and> forEachEntity (e # es) s = forEachEntity es (replace s (entityAtoms e) (replacement e))
   \<and> (\<forall>p q. p \<le> length s \<and> matchAtoms (entityAtoms e) s p = Some q \<longrightarrow>
        (p, q) \<in> set (matchAll (entityAtoms e) s 0)
        \<or> (\<exists>(p', q') \<in> set (matchAll (entityAtoms e) s 0). p' < p \<and> p < q'))"
proof -
  let ?ms = "matchAll (entityAtoms e) s 0"
  have ord: "orderedRanges 0 ?ms (length s)"
    by (rule matchAll_ordered) simp
  have con: "contiguous 0 (passSegments ?ms 0 (length s)) (length s)"
    using ord by (rule passSegments_contiguous)
  have cat: "concat (map (segmentText s) (passSegments ?ms 0 (length s))) = s"
    using contiguous_text [OF con, of s] by (simp add: substring_def)
  have res: "highlightEntity e s
     = Inr (concat (map (renderSegment s (replacement e)) (passSegments ?ms 0 (length s))))"
    by (simp add: highlightEntity_replace replace_def accumulateResult_segments)
  have dep: "\<forall>(c, d) \<in> set (markupText False 0 (replace s (entityAtoms e) (replacement e))). d \<le> 1"
    if "CHR ''<'' \<notin> set s \<and> CHR ''<'' \<notin> set (entityText e)
        \<and> CHR ''>'' \<notin> set (label e) \<union> set (description e)
        \<and> literalTemplate (replacement e)"
  proof -
    from that have mk: "markupText False 0 (replace s (entityAtoms e) (replacement e))
         = concat (map (segmentMarkup s e) (passSegments ?ms 0 (length s)))"
      by (intro markupText_entity) simp_all
    show ?thesis
      unfolding mk using segments_depth by blast
  qed
  have nxt: "forEachEntity (e # es) s = forEachEntity es (replace s (entityAtoms e) (replacement e))"
    by (simp add: highlightEntity_replace)
  have all: "(p, q) \<in> set ?ms \<or> (\<exists>(p', q') \<in> set ?ms. p' < p \<and> p < q')"
    if "p \<le> length s \<and> matchAtoms (entityAtoms e) s p = Some q" for p q
    using matchAll_complete [of 0 p s "entityAtoms e" q] that by simp
  show ?thesis
    using res ord con cat dep nxt all by blast
qed

theorem pass_segments_witness:
  "passSegments (matchAll (entityAtoms moneySpan) ''x$100 y'' 0) 0 (length ''x$100 y'')
     = [(0, 1, False), (1, 5, True), (5, 7, False)]
   \<and> highlightEntity moneySpan ''x$100 y'' = Inr (''x'' @ replacement moneySpan @ '' y'')
   \<and> literalTemplate (replacement moneySpan)
   \<and> markupText False 0 (replace ''x$100 y'' (entityAtoms moneySpan) (replacement moneySpan))
       = [(CHR ''x'', 0), (CHR ''$'', 1), (CHR ''1'', 1), (CHR ''0'', 1), (CHR ''0'', 1),
          (CHR '' '', 0), (CHR ''y'', 0)]
   \<and> matchAtoms (entityAtoms moneySpan) ''x$100 y'' 1 = Some 5
   \<and> (1, 5) \<in> set (matchAll (entityAtoms moneySpan) ''x$100 y'' 0)
   \<and> forEachEntity [moneySpan, aSpan] ''x$100 y''
       = forEachEntity [aSpan] (''x'' @ replacement moneySpan @ '' y'')"
proof -
  have ev: "passSegments (matchAll (entityAtoms moneySpan) ''x$100 y'' 0) 0 (length ''x$100 y'')
     = [(0, 1, False), (1, 5, True), (5, 7, False)]"
    by code_simp
  have r: "concat (map (renderSegment ''x$100 y'' (replacement moneySpan))
         [(0, 1, False), (1, 5, True), (5, 7, False)])
       = ''x'' @ replacement moneySpan @ '' y''"
    by code_simp
  have rp: "replace ''x$100 y'' (entityAtoms moneySpan) (replacement moneySpan)
       = ''x'' @ replacement moneySpan @ '' y''"
    by code_simp
  have h: "CHR ''<'' \<notin> set ''x$100 y'' \<and> CHR ''<'' \<notin> set (entityText moneySpan)
        \<and> CHR ''>'' \<notin> set (label moneySpan) \<union> set (description moneySpan)
        \<and> literalTemplate (replacement moneySpan)"
    by code_simp
  have m: "markupText False 0 (replace ''x$100 y'' (entityAtoms moneySpan) (replacement moneySpan))
       = [(CHR ''x'', 0), (CHR ''$'', 1), (CHR ''1'', 1), (CHR ''0'', 1), (CHR ''0'', 1),
          (CHR '' '', 0), (CHR ''y'', 0)]"
    by code_simp
  have a: "1 \<le> length ''x$100 y'' \<and> matchAtoms (entityAtoms moneySpan) ''x$100 y'' 1 = Some 5"
    by code_simp
  have l: "(1, 5) \<in> set (matchAll (entityAtoms moneySpan) ''x$100 y'' 0)"
    by code_simp
  note w = pass_segments [of moneySpan "''x$100 y''" "[aSpan]"]
  have "\<forall>(c, d) \<in> set (markupText False 0
          (replace ''x$100 y'' (entityAtoms moneySpan) (replacement moneySpan))). d \<le> 1"
    using w h by blast
  moreover have "(1, 5) \<in> set (matchAll (entityAtoms moneySpan) ''x$100 y'' 0)
     \<or> (\<exists>(p', q') \<in> set (matchAll (entityAtoms moneySpan) ''x$100 y'' 0). p' < 1 \<and> 1 < q')"
    using w a by blast
  moreover have "forEachEntity [moneySpan, aSpan] ''x$100 y''
       = forEachEntity [aSpan] (replace ''x$100 y'' (entityAtoms moneySpan) (replacement moneySpan))"
    using w by blast
  moreover have "highlightEntity moneySpan ''x$100 y''
     = Inr (concat (map (renderSegment ''x$100 y'' (replacement moneySpan))
              (passSegments (matchAll (entityAtoms moneySpan) ''x$100 y'' 0) 0 (length ''x$100 y''))))"
    using w by blast
  ultimately show ?thesis
    using ev r rp h m a l by simp
qed

text \<open>
  Claim C2 as it is stated fails: in \<^verbatim>\<open>New York\<close>, annotated for \<^verbatim>\<open>New York\<close> and then
  for \<^verbatim>\<open>New\<close>, the characters of \<^verbatim>\<open>New\<close> stand inside two elements.
\<close>

theorem wrapped_twice_counterexample:
  "map_sum id (markupText False 0) (fst (highlightEntities ''New York'' [newYorkSpan, newSpan]))
     = Inr [(CHR ''N'', 2), (CHR ''e'', 2), (CHR ''w'', 2), (CHR '' '', 1),
            (CHR ''Y'', 1), (CHR ''o'', 1), (CHR ''r'', 1), (CHR ''k'', 1)]"
  by code_simp


subsection \<open>The text of the result\<close>




text \<open>
  With two entities the second pass scans the markup of the first: in
  \<^verbatim>\<open>The title of the entity\<close> the entity \<^verbatim>\<open>title\<close> is matched in the attribute of the
  element that the pass for \<^verbatim>\<open>entity\<close> has written, and the text of the result is no
  longer that of the original.
\<close>

lemma markup_matched_example:
  "map_sum id textContent (fst (highlightEntities ''The title of the entity'' [titleSpan, entitySpan]))
     = Inr (''The title of the title='' @ [doubleQuote, doubleQuote] @ ''>entity'')"
  by code_simp

subsection \<open>The counts\<close>

text \<open>
  Claim C5, as the code has it. The count of a label is the number of entities of the
  list with that label, whether their text occurs in the text or not, and a label of no
  entity has no count. In \<^verbatim>\<open>Apple released new Apple Watch.\<close> both occurrences of
  \<^verbatim>\<open>Apple\<close> are annotated, and the count of \<^verbatim>\<open>ORG\<close> is 1, for the one entity.
\<close>

theorem entity_counts:
  assumes "\<forall>e \<in> set es. label e \<notin> set inheritedNames"
  shows "entityCounts es l
           = (if \<exists>e \<in> set es. label e = l
              then Some (length (filter (\<lambda>e. label e = l) es)) else None)
     \<and> fst (highlightEntities ''Apple released new Apple Watch.'' [appleSpan])
         = Inr (replacement appleSpan @ '' released new '' @ replacement appleSpan @ '' Watch.'')
     \<and> entityCounts [appleSpan] ''ORG'' = Some 1"
proof -
  have ex: "fst (highlightEntities ''Apple released new Apple Watch.'' [appleSpan])
         = Inr (replacement appleSpan @ '' released new '' @ replacement appleSpan @ '' Watch.'')"
    by code_simp
  have c: "entityCounts [appleSpan] ''ORG'' = Some 1"
    by (simp add: entityCounts_def countEntity_def)
  show ?thesis
    using ex c by (simp add: entityCounts_count)
qed

theorem entity_counts_witness:
  "entityCounts [aSpan, bSpan, newSpan] ''X'' = Some 2
   \<and> entityCounts [aSpan, bSpan, newSpan] ''Y'' = Some 1
   \<and> entityCounts [aSpan, bSpan, newSpan] ''Z'' = None"
proof -
  have h: "\<forall>e \<in> set [aSpan, bSpan, newSpan]. label e \<notin> set inheritedNames"
    by (simp add: inheritedNames_def)
  show ?thesis
    using entity_counts [OF h, of "''X''"] entity_counts [OF h, of "''Y''"]
      entity_counts [OF h, of "''Z''"]
    by simp
qed

text \<open>
  Claim C5 as it is stated fails: two occurrences are annotated and the count is not 2.
\<close>

theorem counts_not_applied_counterexample:
  "length (matchAll (entityAtoms appleSpan) ''Apple released new Apple Watch.'' 0) = 2
   \<and> entityCounts [appleSpan] ''ORG'' \<noteq> Some 2"
proof -
  have m: "length (matchAll (entityAtoms appleSpan) ''Apple released new Apple Watch.'' 0) = 2"
    by code_simp
  have c: "entityCounts [appleSpan] ''ORG'' = Some 1"
    by (simp add: entityCounts_def countEntity_def)
  show ?thesis using m c by simp
qed


end
